theory Spec2Isabelle
  imports Main "HOL-Library.Char_ord" "HOL-Library.List_Lexorder"
begin

section \<open>The image caption tool (scripts/image_caption_gui.py)\<close>

text \<open>
  The program keeps a list of images, a cursor into it, a caption text field and a sticky
  search string; captions live in sidecar files. The embedding passes the state of the
  \<^verbatim>\<open>ImageView\<close> object explicitly, together with the contents of the regular files the
  program reads and writes. Python strings are lists of characters; the characters of the
  model are the code points 0 to 255.
\<close>

subsection \<open>Exceptions and outcomes\<close>

datatype error =
    IndexError | ZeroDivisionError | ValueError | AttributeError | TypeError
  | FileNotFoundError | UnidentifiedImageError | OSError

text \<open>
  A method of the view either returns, or raises with the object left in the state it
  had reached when the exception was raised, or (for a search with an empty search text)
  hands control to \<^verbatim>\<open>open_find_ui\<close>, whose dialog is not part of the model; the flag is its
  \<^verbatim>\<open>reverse\<close> argument.
\<close>

datatype 'a outcome = Returned 'a | Raised error 'a | Prompted bool 'a

fun state_of :: "'a outcome \<Rightarrow> 'a" where
  "state_of (Returned s) = s"
| "state_of (Raised e s) = s"
| "state_of (Prompted r s) = s"

fun then_do :: "'a outcome \<Rightarrow> ('a \<Rightarrow> 'a outcome) \<Rightarrow> 'a outcome" where
  "then_do (Returned s) f = f s"
| "then_do (Raised e s) f = Raised e s"
| "then_do (Prompted r s) f = Prompted r s"

subsection \<open>Python strings\<close>

text \<open>\<^verbatim>\<open>str.isspace\<close> on the code points below 256.\<close>

definition is_space :: "char \<Rightarrow> bool" where
  "is_space c \<longleftrightarrow> c \<in> set [CHR 0x09, CHR 0x0A, CHR 0x0B, CHR 0x0C, CHR 0x0D,
     CHR 0x1C, CHR 0x1D, CHR 0x1E, CHR 0x1F, CHR 0x20, CHR 0x85, CHR 0xA0]"

definition replace_char :: "char \<Rightarrow> string \<Rightarrow> string" where
  \<comment> \<open>\<^verbatim>\<open>txt.replace(c, '')\<close>\<close>
  "replace_char c txt = filter (\<lambda>x. x \<noteq> c) txt"

definition strip :: "string \<Rightarrow> string" where
  "strip txt = rev (dropWhile is_space (rev (dropWhile is_space txt)))"

definition normalize_caption :: "string \<Rightarrow> string" where
  \<comment> \<open>\<^verbatim>\<open>txt.replace('\r', '').replace('\n', '').strip()\<close> of \<^verbatim>\<open>store_caption\<close>\<close>
  "normalize_caption txt = strip (replace_char (CHR 0x0A) (replace_char (CHR 0x0D) txt))"

text \<open>\<^verbatim>\<open>str.lower\<close> on the code points below 256.\<close>

definition lower_char :: "char \<Rightarrow> char" where
  "lower_char c =
     (let n = (of_char c :: nat)
      in if (65 \<le> n \<and> n \<le> 90) \<or> (192 \<le> n \<and> n \<le> 222 \<and> n \<noteq> 215)
         then char_of (n + 32) else c)"

definition lower :: "string \<Rightarrow> string" where
  "lower txt = map lower_char txt"

text \<open>\<^verbatim>\<open>q in s\<close> on strings: \<open>q\<close> occurs in \<open>s\<close> as a contiguous run of characters.\<close>

fun is_prefix :: "string \<Rightarrow> string \<Rightarrow> bool" where
  "is_prefix [] s = True"
| "is_prefix (a # q) [] = False"
| "is_prefix (a # q) (b # s) = (a = b \<and> is_prefix q s)"

fun str_contains :: "string \<Rightarrow> string \<Rightarrow> bool" where
  "str_contains q [] = (q = [])"
| "str_contains q (b # s) = (is_prefix q (b # s) \<or> str_contains q s)"

text \<open>\<^verbatim>\<open>s.rfind(c)\<close>: the last position of \<open>c\<close>, or -1.\<close>

fun rfind :: "char \<Rightarrow> string \<Rightarrow> int" where
  "rfind c [] = -1"
| "rfind c (x # s) =
     (let r = rfind c s in if 0 \<le> r then r + 1 else if x = c then 0 else -1)"

subsection \<open>Python lists\<close>

text \<open>
  \<^verbatim>\<open>xs[i]\<close> and \<^verbatim>\<open>del xs[i]\<close>: an index from \<open>-len\<close> to \<open>-1\<close> counts from the end, any other
  index outside the list raises \<^verbatim>\<open>IndexError\<close>.
\<close>

definition py_index :: "'a list \<Rightarrow> int \<Rightarrow> nat option" where
  "py_index xs i =
     (let n = int (length xs)
      in if 0 \<le> i \<and> i < n then Some (nat i)
         else if - n \<le> i \<and> i < 0 then Some (nat (n + i))
         else None)"

definition py_get :: "'a list \<Rightarrow> int \<Rightarrow> 'a option" where
  "py_get xs i = map_option (\<lambda>k. xs ! k) (py_index xs i)"

definition py_del :: "'a list \<Rightarrow> int \<Rightarrow> 'a list option" where
  "py_del xs i = map_option (\<lambda>k. take k xs @ drop (Suc k) xs) (py_index xs i)"

text \<open>\<^verbatim>\<open>range(a, b)\<close>\<close>

definition py_range :: "int \<Rightarrow> int \<Rightarrow> int list" where
  "py_range a b = [a..b - 1]"

subsection \<open>Paths and files\<close>

text \<open>
  A \<^verbatim>\<open>pathlib.Path\<close> is the list of its components. \<^verbatim>\<open>stem\<close> drops the suffix of the last
  component, which starts at its last dot unless that dot is its first or last character.
\<close>

type_synonym path = "string list"

definition parent :: "path \<Rightarrow> path" where
  "parent p = butlast p"

definition name :: "path \<Rightarrow> string" where
  "name p = (if p = [] then [] else last p)"

definition stem :: "path \<Rightarrow> string" where
  "stem p =
     (let nm = name p; i = rfind (CHR ''.'') nm
      in if 0 < i \<and> i < int (length nm) - 1 then take (nat i) nm else nm)"

fun path_str :: "path \<Rightarrow> string" where
  \<comment> \<open>\<^verbatim>\<open>str(path)\<close>: the components joined by the separator\<close>
  "path_str [] = []"
| "path_str [c] = c"
| "path_str (c # d # p) = c @ ''/'' @ path_str (d # p)"

text \<open>
  \<^verbatim>\<open>os.path.splitext(f)[1]\<close>: the extension starts at the last dot of \<open>f\<close>, provided that
  dot comes after the last separator and some character between the separator and the dot
  is not a dot; the extension keeps its dot. Otherwise it is empty.
\<close>

definition splitext_ext :: "string \<Rightarrow> string" where
  "splitext_ext p =
     (let sepIndex = rfind (CHR ''/'') p; dotIndex = rfind (CHR ''.'') p
      in if dotIndex > sepIndex \<and>
            list_ex (\<lambda>c. c \<noteq> CHR ''.'')
              (take (nat (dotIndex - (sepIndex + 1))) (drop (nat (sepIndex + 1)) p))
         then drop (nat dotIndex) p else [])"

text \<open>
  The files: the contents of every regular file, by path. Opening a file for writing
  creates or overwrites it; \<^verbatim>\<open>Path.rename\<close> raises \<^verbatim>\<open>FileNotFoundError\<close> when the source is
  missing and replaces an existing target otherwise. Directories carry no contents and
  are not represented.
\<close>

type_synonym files = "path \<rightharpoonup> string"

definition path_exists :: "files \<Rightarrow> path \<Rightarrow> bool" where
  "path_exists fs p \<longleftrightarrow> fs p \<noteq> None"

definition rename :: "files \<Rightarrow> path \<Rightarrow> path \<Rightarrow> files option" where
  "rename fs src dst =
     (case fs src of None \<Rightarrow> None | Some c \<Rightarrow> Some ((fs(src := None))(dst \<mapsto> c)))"

subsection \<open>CaptionedImage\<close>

definition IMG_EXT :: "string list" where
  "IMG_EXT = [''jpg'', ''jpeg'', ''png'']"

record captioned_image =
  base_path :: path
  path :: path

definition CaptionedImage :: "path \<Rightarrow> captioned_image" where
  "CaptionedImage image_path = \<lparr>base_path = parent image_path, path = image_path\<rparr>"

definition caption_path :: "captioned_image \<Rightarrow> path" where
  "caption_path e = base_path e @ [stem (path e) @ ''.txt'']"

definition read_caption :: "files \<Rightarrow> captioned_image \<Rightarrow> string" where
  \<comment> \<open>the contents of the sidecar file if it exists, else the empty string\<close>
  "read_caption fs e = (case fs (caption_path e) of Some c \<Rightarrow> c | None \<Rightarrow> [])"

definition write_caption :: "files \<Rightarrow> captioned_image \<Rightarrow> string \<Rightarrow> files" where
  "write_caption fs e caption = fs(caption_path e \<mapsto> caption)"

definition sort_key_of :: "captioned_image \<Rightarrow> string" where
  \<comment> \<open>\<^verbatim>\<open>__lt__\<close> compares \<^verbatim>\<open>str(self.path).lower()\<close>\<close>
  "sort_key_of e = lower (path_str (path e))"

subsection \<open>ImageView\<close>

text \<open>
  The fields of the view, the text of the caption field, and the world around it: the
  files, and what the imaging library does with the contents of a file when \<^verbatim>\<open>update_ui\<close>
  opens, scales and converts it (\<open>None\<close> when that succeeds, the exception otherwise; the
  decoder is not part of the program). The window title and the pixels shown are not
  modelled.
\<close>

record image_view =
  view_base_path :: "path option"
  images :: "captioned_image list"
  index :: int
  search_text :: string
  caption_field :: string
  disk :: files
  decode :: "string \<Rightarrow> error option"

definition image_open :: "image_view \<Rightarrow> path \<Rightarrow> error option" where
  \<comment> \<open>\<^verbatim>\<open>Image.open(path)\<close> and the steps up to \<^verbatim>\<open>ImageTk.PhotoImage\<close>: a missing file raises
     \<^verbatim>\<open>FileNotFoundError\<close>, a file that is there is left to the decoder\<close>
  "image_open v p =
     (case disk v p of None \<Rightarrow> Some FileNotFoundError | Some c \<Rightarrow> decode v c)"

definition store_caption :: "image_view \<Rightarrow> image_view outcome" where
  \<comment> \<open>\<^verbatim>\<open>caption_field.get(1.0, tk.END)\<close> is the text of the field followed by a newline\<close>
  "store_caption v =
     (let txt = caption_field v @ [CHR 0x0A];
          txt = normalize_caption txt
      in case py_get (images v) (index v) of
           None \<Rightarrow> Raised IndexError v
         | Some img \<Rightarrow> Returned (v\<lparr>disk := write_caption (disk v) img txt\<rparr>))"

definition set_index :: "image_view \<Rightarrow> int \<Rightarrow> image_view outcome" where
  "set_index v i =
     (if length (images v) = 0 then Raised ZeroDivisionError v
      else Returned (v\<lparr>index := i mod int (length (images v))\<rparr>))"

definition update_ui :: "image_view \<Rightarrow> image_view outcome" where
  \<comment> \<open>the view has no attribute \<^verbatim>\<open>filename\<close>, so the branch of the empty list raises;
     otherwise the caption field is filled first and the image is opened after it\<close>
  "update_ui v =
     (if length (images v) = 0 then Raised AttributeError v
      else case py_get (images v) (index v) of
             None \<Rightarrow> Raised IndexError v
           | Some img \<Rightarrow>
              (let v1 = v\<lparr>caption_field := read_caption (disk v) img\<rparr>
               in case image_open v1 (path img) of
                    None \<Rightarrow> Returned v1
                  | Some e \<Rightarrow> Raised e v1))"

definition go_to_image :: "image_view \<Rightarrow> int \<Rightarrow> image_view outcome" where
  "go_to_image v i =
     (if length (images v) = 0 then Returned v
      else then_do (then_do (store_caption v) (\<lambda>v1. set_index v1 i)) update_ui)"

definition next_image :: "image_view \<Rightarrow> image_view outcome" where
  "next_image v = go_to_image v (index v + 1)"

definition prev_image :: "image_view \<Rightarrow> image_view outcome" where
  "prev_image v = go_to_image v (index v - 1)"

definition shuffle_images :: "image_view \<Rightarrow> image_view outcome" where
  \<comment> \<open>the module imports the function \<^verbatim>\<open>random\<close> of the module \<^verbatim>\<open>random\<close>, which has no
     attribute \<^verbatim>\<open>shuffle\<close>: the call after \<^verbatim>\<open>store_caption\<close> raises\<close>
  "shuffle_images v = then_do (store_caption v) (\<lambda>v1. Raised AttributeError v1)"

text \<open>
  \<^verbatim>\<open>delete_image\<close>: the \<^verbatim>\<open>_deleted\<close> folder is created when it is missing, which changes no
  file; with \<^verbatim>\<open>base_path\<close> still \<^verbatim>\<open>None\<close> the path of that folder cannot be formed and the
  division operator raises \<^verbatim>\<open>TypeError\<close>. The image is renamed first, the sidecar file only
  if it exists then; the entry leaves the list after both.
\<close>

definition delete_image :: "image_view \<Rightarrow> image_view outcome" where
  "delete_image v =
     (if length (images v) = 0 then Returned v
      else case py_get (images v) (index v) of
        None \<Rightarrow> Raised IndexError v
      | Some img \<Rightarrow>
         (case view_base_path v of
            None \<Rightarrow> Raised TypeError v
          | Some bp \<Rightarrow>
             (let trash_path = bp @ [''_deleted'']
              in case rename (disk v) (path img) (trash_path @ [name (path img)]) of
                   None \<Rightarrow> Raised FileNotFoundError v
                 | Some fs1 \<Rightarrow>
                    (let caption_path = caption_path img;
                         moved = (if path_exists fs1 caption_path
                                  then rename fs1 caption_path (trash_path @ [name caption_path])
                                  else Some fs1)
                     in case moved of
                          None \<Rightarrow> Raised FileNotFoundError (v\<lparr>disk := fs1\<rparr>)
                        | Some fs2 \<Rightarrow>
                           (case py_del (images v) (index v) of
                              None \<Rightarrow> Raised IndexError (v\<lparr>disk := fs2\<rparr>)
                            | Some imgs \<Rightarrow>
                               (let v1 = v\<lparr>disk := fs2, images := imgs\<rparr>
                                in then_do (set_index v1 (index v1)) update_ui))))))"

text \<open>
  \<^verbatim>\<open>open_folder\<close>: \<open>dir\<close> is the answer of the folder dialog (\<open>None\<close> when it is cancelled
  and returns the empty string), \<open>walk\<close> is what \<^verbatim>\<open>os.walk(dir)\<close> yields: every directory
  below \<open>dir\<close> with the names of its files.
\<close>

definition image_filenames :: "string list \<Rightarrow> string list" where
  "image_filenames filenames = filter (\<lambda>f. splitext_ext f \<in> set IMG_EXT) filenames"

definition scan :: "(path \<times> string list) list \<Rightarrow> captioned_image list" where
  "scan walk =
     concat (map (\<lambda>(directory, filenames).
                    map (\<lambda>filename. CaptionedImage (directory @ [filename]))
                      (image_filenames filenames)) walk)"

definition open_folder ::
  "image_view \<Rightarrow> path option \<Rightarrow> (path \<times> string list) list \<Rightarrow> image_view outcome" where
  "open_folder v dir walk =
     (case dir of
        None \<Rightarrow> Returned v
      | Some d \<Rightarrow>
         update_ui (v\<lparr>view_base_path := Some d,
                      images := sort_key sort_key_of (scan walk)\<rparr>))"

subsection \<open>Search\<close>

definition load_all_captions :: "image_view \<Rightarrow> string list" where
  "load_all_captions v = map (read_caption (disk v)) (images v)"

text \<open>
  \<^verbatim>\<open>next(i for i in indices if search_text in captions[i])\<close>: the first index that
  matches (\<open>Inr (Some i)\<close>), \<^verbatim>\<open>StopIteration\<close> (\<open>Inr None\<close>), or the exception of an index
  outside the list.
\<close>

fun first_match :: "string \<Rightarrow> string list \<Rightarrow> int list \<Rightarrow> error + int option" where
  "first_match q captions [] = Inr None"
| "first_match q captions (i # indices) =
     (case py_get captions i of
        None \<Rightarrow> Inl IndexError
      | Some c \<Rightarrow> if str_contains q c then Inr (Some i) else first_match q captions indices)"

function find_next_internal ::
  "image_view \<Rightarrow> int \<Rightarrow> int \<Rightarrow> bool \<Rightarrow> bool \<Rightarrow> image_view outcome" where
  "find_next_internal v start_index end_index reverse wrap =
     (let captions = load_all_captions v
      in if start_index \<ge> end_index then Raised ValueError v
         else
           (let indices = py_range start_index end_index;
                indices = (if reverse then rev indices else indices)
            in case first_match (search_text v) captions indices of
                 Inl e \<Rightarrow> Raised e v
               | Inr (Some next_index) \<Rightarrow> go_to_image v next_index
               | Inr None \<Rightarrow>
                  (if wrap
                   then (if reverse
                         then find_next_internal v end_index (int (length (images v))) True False
                         else find_next_internal v 0 start_index False False)
                   else Returned v)))"
  by pat_completeness auto
termination
  by (relation "measure (\<lambda>(v, s, e, r, w). if w then 1 else 0)") auto

definition find_next :: "image_view \<Rightarrow> image_view outcome" where
  "find_next v =
     (if length (images v) = 0 then Returned v
      else if length (search_text v) = 0 then Prompted False v
      else
        (let start_index = (index v + 1) mod int (length (images v));
             end_index = int (length (images v))
         in find_next_internal v start_index end_index False True))"

definition find_prev :: "image_view \<Rightarrow> image_view outcome" where
  "find_prev v =
     (if length (images v) = 0 then Returned v
      else if length (search_text v) = 0 then Prompted True v
      else
        (let end_index = (index v + int (length (images v)) - 1) mod int (length (images v));
             start_index = 0
         in find_next_internal v start_index end_index True True))"

subsection \<open>A folder of three captioned images\<close>

text \<open>
  Images \<^verbatim>\<open>a.jpg\<close>, \<^verbatim>\<open>b.jpg\<close>, \<^verbatim>\<open>c.jpg\<close> in a folder \<^verbatim>\<open>d\<close>, with the captions
  "red fox", "blue sky" and "red fox jumps" in their sidecar files; the decoder accepts
  every file.
\<close>

definition demo_images :: "captioned_image list" where
  "demo_images =
     map CaptionedImage [[''d'', ''a.jpg''], [''d'', ''b.jpg''], [''d'', ''c.jpg'']]"

definition demo_disk :: files where
  "demo_disk =
     [[''d'', ''a.jpg''] \<mapsto> [], [''d'', ''b.jpg''] \<mapsto> [], [''d'', ''c.jpg''] \<mapsto> [],
      [''d'', ''a.txt''] \<mapsto> ''red fox'', [''d'', ''b.txt''] \<mapsto> ''blue sky'',
      [''d'', ''c.txt''] \<mapsto> ''red fox jumps'']"

definition demo_view :: "int \<Rightarrow> string \<Rightarrow> string \<Rightarrow> image_view" where
  "demo_view i q buf =
     \<lparr>view_base_path = Some [''d''], images = demo_images, index = i,
      search_text = q, caption_field = buf, disk = demo_disk, decode = (\<lambda>c. None)\<rparr>"

text \<open>The condition of the search at index \<open>i\<close>: \<^verbatim>\<open>search_text in captions[i]\<close>.\<close>

definition matches :: "image_view \<Rightarrow> int \<Rightarrow> bool" where
  "matches v i = str_contains (search_text v) (load_all_captions v ! nat i)"

declare find_next_internal.simps [simp del]

text \<open>The invariant of the cursor: inside the list whenever the list is not empty.\<close>

definition cursor_ok :: "image_view \<Rightarrow> bool" where
  "cursor_ok v \<longleftrightarrow> (images v \<noteq> [] \<longrightarrow> 0 \<le> index v \<and> index v < int (length (images v)))"

subsection \<open>SpellcheckText: the timer of the spell check\<close>

text \<open>
  The widget keeps the id of its pending \<^verbatim>\<open>after\<close> call. Tk's side of it is a list of the
  pending calls, each with its id and the time in milliseconds at which it is due, a counter
  for fresh ids and the clock; every pending call of this widget is a call of
  \<^verbatim>\<open>on_modified\<close>. The ids of Tk are non-empty strings, so \<^verbatim>\<open>if self.afterid\<close> asks whether
  an id is stored. What \<^verbatim>\<open>on_modified\<close> does to the tags of the text is not modelled; the
  times at which it has run are recorded.
\<close>

record spellcheck_text =
  afterid :: "nat option"
  timers :: "(nat \<times> nat) list"
  next_id :: nat
  clock :: nat
  checks :: "nat list"

definition after :: "nat \<Rightarrow> spellcheck_text \<Rightarrow> nat \<times> spellcheck_text" where
  \<comment> \<open>\<^verbatim>\<open>self.after(delay, self.on_modified)\<close>\<close>
  "after delay s =
     (next_id s, s\<lparr>timers := timers s @ [(next_id s, clock s + delay)],
                    next_id := Suc (next_id s)\<rparr>)"

definition after_cancel :: "nat \<Rightarrow> spellcheck_text \<Rightarrow> spellcheck_text" where
  "after_cancel i s = s\<lparr>timers := filter (\<lambda>(j, due). j \<noteq> i) (timers s)\<rparr>"

definition on_modify :: "spellcheck_text \<Rightarrow> spellcheck_text" where
  "on_modify s =
     (let delay = 200;
          s1 = (case afterid s of Some i \<Rightarrow> after_cancel i s | None \<Rightarrow> s);
          (i, s2) = after delay s1
      in s2\<lparr>afterid := Some i\<rparr>)"

definition on_modified :: "spellcheck_text \<Rightarrow> spellcheck_text" where
  "on_modified s = s\<lparr>afterid := None, checks := checks s @ [clock s]\<rparr>"

text \<open>
  The event loop up to time \<open>t\<close>: the pending calls that are due by then run in the order
  in which they were scheduled, each at the time it is due, and leave the list.
\<close>

fun fire_due :: "nat \<Rightarrow> (nat \<times> nat) list \<Rightarrow> spellcheck_text \<Rightarrow> spellcheck_text" where
  "fire_due t [] s = s"
| "fire_due t ((i, due) # pending) s =
     (if due \<le> t
      then fire_due t pending (on_modified (s\<lparr>clock := due, timers := pending\<rparr>))
      else s)"

definition run_until :: "nat \<Rightarrow> spellcheck_text \<Rightarrow> spellcheck_text" where
  "run_until t s = (fire_due t (timers s) s)\<lparr>clock := t\<rparr>"

text \<open>A modification of the text at time \<open>t\<close>, and a sequence of them.\<close>

definition modify_at :: "nat \<Rightarrow> spellcheck_text \<Rightarrow> spellcheck_text" where
  "modify_at t s = on_modify (run_until t s)"

definition modify_all :: "nat list \<Rightarrow> spellcheck_text \<Rightarrow> spellcheck_text" where
  "modify_all ts s = foldl (\<lambda>s t. modify_at t s) s ts"

text \<open>
  Each event of \<open>ts\<close> comes less than the delay after the one before it, the first one
  after \<open>t\<close>.
\<close>

fun within_window :: "nat \<Rightarrow> nat list \<Rightarrow> bool" where
  "within_window t [] = True"
| "within_window t (t' # ts) = (t \<le> t' \<and> t' < t + 200 \<and> within_window t' ts)"

definition idle :: "nat \<Rightarrow> spellcheck_text" where
  \<comment> \<open>the widget after \<^verbatim>\<open>__init__\<close>, at time \<open>t\<close>\<close>
  "idle t = \<lparr>afterid = None, timers = [], next_id = 0, clock = t, checks = []\<rparr>"


section \<open>Properties\<close>

subsection \<open>Indexing and normalisation\<close>

lemma normalize_caption_newline: "normalize_caption (t @ [CHR 0x0A]) = normalize_caption t"
  by (simp add: normalize_caption_def replace_char_def)

lemma py_get_valid: "0 \<le> i \<Longrightarrow> i < int (length xs) \<Longrightarrow> py_get xs i = Some (xs ! nat i)"
  by (simp add: py_get_def py_index_def)

lemma py_get_None_iff:
  "py_get xs i = None \<longleftrightarrow> (i < - int (length xs) \<or> int (length xs) \<le> i)"
  by (auto simp: py_get_def py_index_def Let_def)

lemma py_get_mod:
  "xs \<noteq> [] \<Longrightarrow> py_get xs (i mod int (length xs)) = Some (xs ! nat (i mod int (length xs)))"
  by (simp add: py_get_valid)

lemma demo_caption_paths:
  "map caption_path demo_images = [[''d'', ''a.txt''], [''d'', ''b.txt''], [''d'', ''c.txt'']]"
  by (simp add: demo_images_def caption_path_def CaptionedImage_def stem_def name_def
      parent_def)

subsection \<open>Navigation flushes the caption before it moves the cursor\<close>

lemma store_caption_Some:
  "py_get (images v) (index v) = Some img \<Longrightarrow>
   store_caption v =
     Returned (v\<lparr>disk := (disk v)(caption_path img \<mapsto> normalize_caption (caption_field v))\<rparr>)"
  by (simp add: store_caption_def write_caption_def normalize_caption_newline)

lemma store_caption_None:
  "py_get (images v) (index v) = None \<Longrightarrow> store_caption v = Raised IndexError v"
  by (simp add: store_caption_def)

lemma update_ui_Some:
  assumes "images v \<noteq> []" and "py_get (images v) (index v) = Some img"
  shows "update_ui v =
     (case image_open (v\<lparr>caption_field := read_caption (disk v) img\<rparr>) (path img) of
        None \<Rightarrow> Returned (v\<lparr>caption_field := read_caption (disk v) img\<rparr>)
      | Some e \<Rightarrow> Raised e (v\<lparr>caption_field := read_caption (disk v) img\<rparr>))"
  using assms by (simp add: update_ui_def Let_def)

lemma update_ui_state:
  assumes "images v \<noteq> []" and "py_get (images v) (index v) = Some img"
  shows "state_of (update_ui v) = v\<lparr>caption_field := read_caption (disk v) img\<rparr>"
  unfolding update_ui_Some [OF assms] by (simp split: option.splits)

lemma update_ui_outcome:
  assumes "images v \<noteq> []" and "py_get (images v) (index v) = Some img"
  shows "update_ui v =
     (case image_open (state_of (update_ui v)) (path img) of
        None \<Rightarrow> Returned (state_of (update_ui v))
      | Some e \<Rightarrow> Raised e (state_of (update_ui v)))"
  unfolding update_ui_state [OF assms] by (rule update_ui_Some [OF assms])

lemma go_to_image_Some:
  fixes i :: int
  assumes "images v \<noteq> []" and "py_get (images v) (index v) = Some img"
  defines "v' \<equiv> v\<lparr>disk := (disk v)(caption_path img \<mapsto> normalize_caption (caption_field v)),
                 index := i mod int (length (images v)),
                 caption_field :=
                   read_caption ((disk v)(caption_path img \<mapsto> normalize_caption (caption_field v)))
                     (images v ! nat (i mod int (length (images v))))\<rparr>"
  shows "go_to_image v i =
     (case image_open v' (path (images v ! nat (i mod int (length (images v))))) of
        None \<Rightarrow> Returned v' | Some e \<Rightarrow> Raised e v')"
  using assms(1,2) unfolding v'_def
  by (simp add: go_to_image_def store_caption_Some set_index_def update_ui_def py_get_mod
      image_open_def Let_def)

lemma go_to_image_state:
  assumes "images v \<noteq> []" and "py_get (images v) (index v) = Some img"
  shows "state_of (go_to_image v i) =
     v\<lparr>disk := (disk v)(caption_path img \<mapsto> normalize_caption (caption_field v)),
       index := i mod int (length (images v)),
       caption_field :=
         read_caption ((disk v)(caption_path img \<mapsto> normalize_caption (caption_field v)))
           (images v ! nat (i mod int (length (images v))))\<rparr>"
  unfolding go_to_image_Some [OF assms] by (simp split: option.splits)

lemma go_to_image_None:
  assumes "images v \<noteq> []" and "py_get (images v) (index v) = None"
  shows "go_to_image v i = Raised IndexError v"
  using assms by (simp add: go_to_image_def store_caption_None)



subsection \<open>The caption store\<close>

lemma rev_dropWhile_split:
  "xs = rev (dropWhile P (rev xs)) @ rev (takeWhile P (rev xs))"
proof -
  have "rev (rev xs) = rev (takeWhile P (rev xs) @ dropWhile P (rev xs))"
    by (simp only: takeWhile_dropWhile_id)
  then show ?thesis
    by (simp only: rev_rev_ident rev_append)
qed

lemma strip_suffix:
  "dropWhile is_space s = strip s @ rev (takeWhile is_space (rev (dropWhile is_space s)))"
  unfolding strip_def by (rule rev_dropWhile_split)

lemma strip_decompose:
  "\<exists>pre suf. s = pre @ strip s @ suf \<and>
     (\<forall>c \<in> set pre. is_space c) \<and> (\<forall>c \<in> set suf. is_space c)"
proof -
  let ?pre = "takeWhile is_space s"
  let ?suf = "rev (takeWhile is_space (rev (dropWhile is_space s)))"
  have "s = ?pre @ dropWhile is_space s"
    by (simp only: takeWhile_dropWhile_id)
  with strip_suffix [of s] have "s = ?pre @ strip s @ ?suf"
    by metis
  moreover have "\<forall>c \<in> set ?pre. is_space c"
    by (auto dest: set_takeWhileD)
  moreover have "\<forall>c \<in> set ?suf. is_space c"
    by (auto dest: set_takeWhileD)
  ultimately show ?thesis by blast
qed

lemma strip_ends:
  assumes "strip s \<noteq> []"
  shows "\<not> is_space (hd (strip s))" and "\<not> is_space (last (strip s))"
proof -
  let ?d = "dropWhile is_space s"
  let ?r = "dropWhile is_space (rev ?d)"
  have r: "?r \<noteq> []"
    using assms unfolding strip_def by (simp only: rev_is_Nil_conv not_False_eq_True)
  then have "\<not> is_space (hd ?r)" by (rule hd_dropWhile)
  moreover have "last (strip s) = hd ?r"
    unfolding strip_def using r by (simp only: last_rev)
  ultimately show "\<not> is_space (last (strip s))" by simp
  have d: "?d \<noteq> []"
  proof
    assume "?d = []"
    then have "?r = []" by (simp only: rev.simps dropWhile.simps)
    with r show False by blast
  qed
  then have nd: "\<not> is_space (hd ?d)" by (rule hd_dropWhile)
  have "hd ?d = hd (strip s @ rev (takeWhile is_space (rev ?d)))"
    using strip_suffix [of s] by metis
  then have "hd ?d = hd (strip s)" using assms by (metis hd_append2)
  with nd show "\<not> is_space (hd (strip s))" by simp
qed

lemma normalize_caption_no_newlines:
  "CHR 0x0D \<notin> set (normalize_caption t)" "CHR 0x0A \<notin> set (normalize_caption t)"
proof -
  let ?f = "replace_char (CHR 0x0A) (replace_char (CHR 0x0D) t)"
  obtain pre suf where "?f = pre @ strip ?f @ suf" using strip_decompose by blast
  then have "set (strip ?f) \<subseteq> set ?f" by (metis Un_upper1 Un_upper2 set_append subset_trans)
  moreover have "CHR 0x0D \<notin> set ?f" "CHR 0x0A \<notin> set ?f" by (auto simp: replace_char_def)
  ultimately show "CHR 0x0D \<notin> set (normalize_caption t)" "CHR 0x0A \<notin> set (normalize_caption t)"
    by (auto simp: normalize_caption_def)
qed

text \<open>
  C8. Writing the normalised text of \<open>t\<close> to the sidecar file of an entry and reading the
  entry's caption back gives exactly that text. The normalised text has no carriage
  return and no line feed; it is \<open>t\<close> without those two characters, less a run of white
  space before and a run of white space after, and neither begins nor ends with white
  space. Reading gives the contents of the sidecar file when it exists and the empty
  string when no file is there; the model of \<^verbatim>\<open>read_caption\<close> has no raising branch.
\<close>

theorem caption_round_trip:
  "read_caption (write_caption fs e (normalize_caption t)) e = normalize_caption t \<and>
   CHR 0x0D \<notin> set (normalize_caption t) \<and> CHR 0x0A \<notin> set (normalize_caption t) \<and>
   (\<exists>pre suf. filter (\<lambda>c. c \<noteq> CHR 0x0D \<and> c \<noteq> CHR 0x0A) t = pre @ normalize_caption t @ suf \<and>
      (\<forall>c \<in> set pre. is_space c) \<and> (\<forall>c \<in> set suf. is_space c)) \<and>
   (normalize_caption t \<noteq> [] \<longrightarrow>
      \<not> is_space (hd (normalize_caption t)) \<and> \<not> is_space (last (normalize_caption t))) \<and>
   (\<forall>c. fs (caption_path e) = Some c \<longrightarrow> read_caption fs e = c) \<and>
   (\<not> path_exists fs (caption_path e) \<longrightarrow> read_caption fs e = [])"
proof -
  have "read_caption (write_caption fs e (normalize_caption t)) e = normalize_caption t"
    by (simp add: read_caption_def write_caption_def)
  moreover have "\<exists>pre suf. filter (\<lambda>c. c \<noteq> CHR 0x0D \<and> c \<noteq> CHR 0x0A) t = pre @ normalize_caption t @ suf \<and>
      (\<forall>c \<in> set pre. is_space c) \<and> (\<forall>c \<in> set suf. is_space c)"
  proof -
    have "replace_char (CHR 0x0A) (replace_char (CHR 0x0D) t)
        = filter (\<lambda>c. c \<noteq> CHR 0x0D \<and> c \<noteq> CHR 0x0A) t"
      by (simp add: replace_char_def conj_commute)
    then show ?thesis
      using strip_decompose [of "replace_char (CHR 0x0A) (replace_char (CHR 0x0D) t)"]
      by (simp add: normalize_caption_def)
  qed
  moreover have "normalize_caption t \<noteq> [] \<longrightarrow>
      \<not> is_space (hd (normalize_caption t)) \<and> \<not> is_space (last (normalize_caption t))"
    using strip_ends by (simp add: normalize_caption_def)
  moreover have "\<forall>c. fs (caption_path e) = Some c \<longrightarrow> read_caption fs e = c"
    by (simp add: read_caption_def)
  moreover have "\<not> path_exists fs (caption_path e) \<longrightarrow> read_caption fs e = []"
    by (simp add: read_caption_def path_exists_def)
  ultimately show ?thesis
    using normalize_caption_no_newlines [of t] by blast
qed

theorem caption_round_trip_witness:
  "read_caption (write_caption demo_disk (CaptionedImage [''d'', ''b.jpg'']) ''a  cat'')
       (CaptionedImage [''d'', ''b.jpg'']) = ''a  cat'' \<and>
   normalize_caption [CHR 0x20, CHR ''a'', CHR 0x0D, CHR 0x0A, CHR 0x20, CHR 0x20, CHR ''c'', CHR ''a'', CHR ''t'', CHR 0x09, CHR 0x0A] = ''a  cat'' \<and>
   read_caption demo_disk (CaptionedImage [''d'', ''b.jpg'']) = ''blue sky'' \<and>
   read_caption demo_disk (CaptionedImage [''d'', ''z.jpg'']) = []"
proof -
  let ?t = "[CHR 0x20, CHR ''a'', CHR 0x0D, CHR 0x0A, CHR 0x20, CHR 0x20, CHR ''c'', CHR ''a'', CHR ''t'', CHR 0x09, CHR 0x0A]"
  let ?e = "CaptionedImage [''d'', ''b.jpg'']"
  let ?z = "CaptionedImage [''d'', ''z.jpg'']"
  have nz: "normalize_caption ?t = ''a  cat''"
    by (simp add: normalize_caption_def replace_char_def strip_def is_space_def)
  have cp: "caption_path ?e = [''d'', ''b.txt'']" "caption_path ?z = [''d'', ''z.txt'']"
    by (simp_all add: caption_path_def CaptionedImage_def stem_def name_def parent_def)
  have b: "demo_disk (caption_path ?e) = Some ''blue sky''"
    by (simp add: cp demo_disk_def)
  have z: "\<not> path_exists demo_disk (caption_path ?z)"
    by (simp add: cp demo_disk_def path_exists_def)
  from caption_round_trip [of demo_disk ?e ?t] b
  have 1: "read_caption (write_caption demo_disk ?e (normalize_caption ?t)) ?e = normalize_caption ?t"
    and 2: "read_caption demo_disk ?e = ''blue sky''"
    by blast+
  from caption_round_trip [of demo_disk ?z ?t] z
  have 3: "read_caption demo_disk ?z = []" by blast
  show ?thesis using 1 2 3 nz by simp
qed

subsection \<open>Search\<close>

lemma is_prefix_iff: "is_prefix q s \<longleftrightarrow> (\<exists>suf. s = q @ suf)"
  by (induction q s rule: is_prefix.induct) auto

lemma str_contains_iff: "str_contains q s \<longleftrightarrow> (\<exists>pre suf. s = pre @ q @ suf)"
proof (induction s)
  case Nil
  show ?case by simp
next
  case (Cons b s)
  have "(\<exists>pre suf. b # s = pre @ q @ suf) \<longleftrightarrow>
        (\<exists>suf. b # s = q @ suf) \<or> (\<exists>pre suf. s = pre @ q @ suf)"
  proof
    assume "\<exists>pre suf. b # s = pre @ q @ suf"
    then obtain pre suf where e: "b # s = pre @ q @ suf" by blast
    show "(\<exists>suf. b # s = q @ suf) \<or> (\<exists>pre suf. s = pre @ q @ suf)"
    proof (cases pre)
      case Nil
      with e show ?thesis by auto
    next
      case (Cons a pre')
      with e have "s = pre' @ q @ suf" by simp
      then show ?thesis by blast
    qed
  next
    assume "(\<exists>suf. b # s = q @ suf) \<or> (\<exists>pre suf. s = pre @ q @ suf)"
    then show "\<exists>pre suf. b # s = pre @ q @ suf"
    proof
      assume "\<exists>suf. b # s = q @ suf"
      then obtain suf where "b # s = [] @ q @ suf" by auto
      then show ?thesis by blast
    next
      assume "\<exists>pre suf. s = pre @ q @ suf"
      then obtain pre suf where "b # s = (b # pre) @ q @ suf" by auto
      then show ?thesis by blast
    qed
  qed
  with Cons show ?case by (simp add: is_prefix_iff del: is_prefix.simps)
qed

lemma first_match_in_range:
  "\<forall>i \<in> set indices. 0 \<le> i \<and> i < int (length captions) \<Longrightarrow>
   first_match q captions indices
     = Inr (List.find (\<lambda>i. str_contains q (captions ! nat i)) indices)"
  by (induction indices) (auto simp: py_get_valid)

lemma first_match_view:
  assumes "\<forall>i \<in> set indices. 0 \<le> i \<and> i < int (length (images v))"
  shows "first_match (search_text v) (load_all_captions v) indices
     = Inr (List.find (matches v) indices)"
proof -
  have "length (load_all_captions v) = length (images v)"
    by (simp add: load_all_captions_def)
  with assms first_match_in_range [of indices "load_all_captions v" "search_text v"]
  show ?thesis by (simp add: matches_def [abs_def])
qed

lemma find_append:
  "List.find P (xs @ ys) = (case List.find P xs of None \<Rightarrow> List.find P ys | Some x \<Rightarrow> Some x)"
  by (induction xs) auto

lemma find_Some_mem: "List.find P xs = Some x \<Longrightarrow> x \<in> set xs"
  by (induction xs) (auto split: if_splits)

lemma find_next_internal_empty:
  "b \<le> a \<Longrightarrow> find_next_internal v a b r w = Raised ValueError v"
  by (simp add: find_next_internal.simps)

lemma find_next_internal_nowrap:
  assumes "0 \<le> a" and "a < b" and "b \<le> int (length (images v))"
  shows "find_next_internal v a b r False =
     (case List.find (matches v) (if r then rev [a..b - 1] else [a..b - 1]) of
        Some j \<Rightarrow> go_to_image v j | None \<Rightarrow> Returned v)"
proof -
  have "\<forall>i \<in> set (if r then rev [a..b - 1] else [a..b - 1]). 0 \<le> i \<and> i < int (length (images v))"
    using assms by auto
  from first_match_view [OF this] assms show ?thesis
    by (simp add: find_next_internal.simps [of v a b r False] py_range_def split: option.splits)
qed

lemma find_next_internal_wrap:
  assumes "0 \<le> a" and "a < b" and "b \<le> int (length (images v))"
  shows "find_next_internal v a b r True =
     (case List.find (matches v) (if r then rev [a..b - 1] else [a..b - 1]) of
        Some j \<Rightarrow> go_to_image v j
      | None \<Rightarrow> if r then find_next_internal v b (int (length (images v))) True False
                else find_next_internal v 0 a False False)"
proof -
  have "\<forall>i \<in> set (if r then rev [a..b - 1] else [a..b - 1]). 0 \<le> i \<and> i < int (length (images v))"
    using assms by auto
  from first_match_view [OF this] assms show ?thesis
    by (simp add: find_next_internal.simps [of v a b r True] py_range_def split: option.splits)
qed

lemma go_to_image_index:
  assumes "images v \<noteq> []" and "0 \<le> index v" and "index v < int (length (images v))"
    and "0 \<le> j" and "j < int (length (images v))"
  shows "index (state_of (go_to_image v j)) = j"
  using assms by (simp add: go_to_image_state [OF assms(1) py_get_valid])

lemma go_to_image_outcome:
  assumes "images v \<noteq> []" and "py_get (images v) (index v) = Some img"
  shows "go_to_image v i =
     (case image_open (state_of (go_to_image v i))
             (path (images v ! nat (i mod int (length (images v))))) of
        None \<Rightarrow> Returned (state_of (go_to_image v i))
      | Some e \<Rightarrow> Raised e (state_of (go_to_image v i)))"
  unfolding go_to_image_state [OF assms] by (rule go_to_image_Some [OF assms])

lemma find_next_eq:
  assumes "images v \<noteq> []" and "0 \<le> index v" and "index v < int (length (images v))"
    and "search_text v \<noteq> []"
  shows "find_next v =
     (case List.find (matches v)
             ([index v + 1..int (length (images v)) - 1] @ [0..index v]) of
        Some j \<Rightarrow> go_to_image v j
      | None \<Rightarrow> if index v = int (length (images v)) - 1 then Raised ValueError v
                else Returned v)"
proof (cases "index v + 1 < int (length (images v))")
  case True
  then have m: "(index v + 1) mod int (length (images v)) = index v + 1"
    using assms by simp
  have "find_next v = find_next_internal v (index v + 1) (int (length (images v))) False True"
    using assms by (simp add: find_next_def m)
  also have "\<dots> = (case List.find (matches v) [index v + 1..int (length (images v)) - 1] of
        Some j \<Rightarrow> go_to_image v j
      | None \<Rightarrow> find_next_internal v 0 (index v + 1) False False)"
    using assms True by (simp add: find_next_internal_wrap)
  also have "find_next_internal v 0 (index v + 1) False False =
      (case List.find (matches v) [0..index v] of
        Some j \<Rightarrow> go_to_image v j | None \<Rightarrow> Returned v)"
    using assms True by (simp add: find_next_internal_nowrap)
  finally show ?thesis
    using True by (simp add: find_append split: option.splits)
next
  case False
  then have c: "index v = int (length (images v)) - 1" using assms by simp
  then have m: "(index v + 1) mod int (length (images v)) = 0" by simp
  have "find_next v = find_next_internal v 0 (int (length (images v))) False True"
    using assms by (simp add: find_next_def m)
  also have "\<dots> = (case List.find (matches v) [0..int (length (images v)) - 1] of
        Some j \<Rightarrow> go_to_image v j
      | None \<Rightarrow> find_next_internal v 0 0 False False)"
    using assms by (simp add: find_next_internal_wrap)
  finally show ?thesis
    using c by (simp add: find_next_internal_empty split: option.splits)
qed


lemma find_prev_eq:
  assumes "images v \<noteq> []" and "0 \<le> index v" and "index v < int (length (images v))"
    and "search_text v \<noteq> []"
  shows "find_prev v =
     (let end_index = (index v + int (length (images v)) - 1) mod int (length (images v))
      in if end_index = 0 then Raised ValueError v
         else case List.find (matches v)
                     (rev [0..end_index - 1] @ rev [end_index..int (length (images v)) - 1]) of
                Some j \<Rightarrow> go_to_image v j | None \<Rightarrow> Returned v)"
proof -
  let ?n = "int (length (images v))"
  let ?e = "(index v + ?n - 1) mod ?n"
  have n: "0 < ?n" using assms by simp
  then have e: "0 \<le> ?e" "?e < ?n" by simp_all
  have fp: "find_prev v = find_next_internal v 0 ?e True True"
    using assms by (simp add: find_prev_def)
  show ?thesis
  proof (cases "?e = 0")
    case True
    then show ?thesis using fp by (simp add: find_next_internal_empty)
  next
    case False
    with e have pos: "0 < ?e" by simp
    have "find_next_internal v 0 ?e True True =
        (case List.find (matches v) (rev [0..?e - 1]) of
           Some j \<Rightarrow> go_to_image v j
         | None \<Rightarrow> find_next_internal v ?e ?n True False)"
      using pos e by (simp add: find_next_internal_wrap)
    moreover have "find_next_internal v ?e ?n True False =
        (case List.find (matches v) (rev [?e..?n - 1]) of
           Some j \<Rightarrow> go_to_image v j | None \<Rightarrow> Returned v)"
      using e by (simp add: find_next_internal_nowrap)
    ultimately show ?thesis
      using fp False by (simp add: find_append Let_def split: option.splits)
  qed
qed

text \<open>
  C5. With a non-empty list, the cursor inside it and a non-empty search text,
  \<^verbatim>\<open>find_next\<close> looks for the first index, in the order cursor+1, ..., length-1 and then
  0, ..., cursor, whose caption on disk contains the search text as a contiguous run of
  characters (compared character by character, so case matters). If there is one,
  \<^verbatim>\<open>find_next\<close> is \<^verbatim>\<open>go_to_image\<close> to that index: it ends with the cursor there, and it
  returns when the image of that entry can be opened and raises what opening it raises
  when it cannot. If there is none, the view, cursor included, is what it was. The
  witness is the scenario
  of the three captions: from cursor 0 the search for "red" lands on 2, then on 0, then
  (from the same view as at the start) on 2 again, and the search for "zzz" leaves the
  cursor where it is.
\<close>

theorem find_next_first_match_with_wrap:
  assumes "images v \<noteq> []" and "0 \<le> index v" and "index v < int (length (images v))"
    and "search_text v \<noteq> []"
  shows "(\<forall>c. str_contains (search_text v) c \<longleftrightarrow> (\<exists>pre suf. c = pre @ search_text v @ suf)) \<and>
     (\<forall>j. List.find (matches v)
              ([index v + 1..int (length (images v)) - 1] @ [0..index v]) = Some j
          \<longrightarrow> find_next v = go_to_image v j \<and> index (state_of (find_next v)) = j \<and>
              find_next v =
                (case image_open (state_of (find_next v)) (path (images v ! nat j)) of
                   None \<Rightarrow> Returned (state_of (find_next v))
                 | Some e \<Rightarrow> Raised e (state_of (find_next v)))) \<and>
     (List.find (matches v)
              ([index v + 1..int (length (images v)) - 1] @ [0..index v]) = None
          \<longrightarrow> state_of (find_next v) = v)"
proof -
  let ?order = "[index v + 1..int (length (images v)) - 1] @ [0..index v]"
  have cur: "py_get (images v) (index v) = Some (images v ! nat (index v))"
    using assms by (simp add: py_get_valid)
  have some: "find_next v = go_to_image v j \<and> index (state_of (find_next v)) = j \<and>
      find_next v =
        (case image_open (state_of (find_next v)) (path (images v ! nat j)) of
           None \<Rightarrow> Returned (state_of (find_next v))
         | Some e \<Rightarrow> Raised e (state_of (find_next v)))"
    if f: "List.find (matches v) ?order = Some j" for j
  proof -
    from f have "j \<in> set ?order" by (rule find_Some_mem)
    then have j: "0 \<le> j" "j < int (length (images v))" using assms by auto
    then have m: "j mod int (length (images v)) = j" by simp
    have 1: "find_next v = go_to_image v j"
      using f by (simp add: find_next_eq [OF assms])
    have 2: "index (state_of (go_to_image v j)) = j"
      using assms(1-3) j by (rule go_to_image_index)
    have 3: "go_to_image v j =
        (case image_open (state_of (go_to_image v j)) (path (images v ! nat j)) of
           None \<Rightarrow> Returned (state_of (go_to_image v j))
         | Some e \<Rightarrow> Raised e (state_of (go_to_image v j)))"
      using go_to_image_outcome [OF assms(1) cur, of j] by (simp only: m)
    from 2 3 show ?thesis unfolding 1 by blast
  qed
  have none: "state_of (find_next v) = v" if "List.find (matches v) ?order = None"
    using that by (simp add: find_next_eq [OF assms])
  show ?thesis
    using some none str_contains_iff by blast
qed

lemma demo_view_valid:
  "images (demo_view i q buf) \<noteq> []" "length (images (demo_view i q buf)) = 3"
  "index (demo_view i q buf) = i" "search_text (demo_view i q buf) = q"
  by (simp_all add: demo_view_def demo_images_def)

lemma demo_captions:
  "load_all_captions (demo_view i q buf) = [''red fox'', ''blue sky'', ''red fox jumps'']"
proof -
  have "load_all_captions (demo_view i q buf)
      = map (\<lambda>p. case demo_disk p of Some c \<Rightarrow> c | None \<Rightarrow> []) (map caption_path demo_images)"
    by (simp add: load_all_captions_def demo_view_def read_caption_def [abs_def] comp_def)
  then show ?thesis
    by (simp add: demo_caption_paths demo_disk_def)
qed

lemma demo_matches:
  "matches (demo_view i ''red'' buf) 0" "\<not> matches (demo_view i ''red'' buf) 1"
  "matches (demo_view i ''red'' buf) 2"
  "\<not> matches (demo_view i ''zzz'' buf) 0" "\<not> matches (demo_view i ''zzz'' buf) 1"
  "\<not> matches (demo_view i ''zzz'' buf) 2"
  by (simp_all add: matches_def demo_captions demo_view_valid)

lemma demo_go_to_image:
  "go_to_image (demo_view 0 q ''red fox'') 2 = Returned (demo_view 2 q ''red fox jumps'')"
  "go_to_image (demo_view 2 q ''red fox jumps'') 0 = Returned (demo_view 0 q ''red fox'')"
proof -
  have cp: "caption_path (CaptionedImage [''d'', ''a.jpg'']) = [''d'', ''a.txt'']"
      "caption_path (CaptionedImage [''d'', ''c.jpg'']) = [''d'', ''c.txt'']"
    using demo_caption_paths by (simp_all add: demo_images_def)
  have nz: "normalize_caption ''red fox'' = ''red fox''"
      "normalize_caption ''red fox jumps'' = ''red fox jumps''"
    by (simp_all add: normalize_caption_def replace_char_def strip_def is_space_def)
  have a: "demo_disk([''d'', ''a.txt''] \<mapsto> ''red fox'') = demo_disk"
    by (rule fun_upd_idem) (simp add: demo_disk_def)
  have c: "demo_disk([''d'', ''c.txt''] \<mapsto> ''red fox jumps'') = demo_disk"
    by (rule fun_upd_idem) (simp add: demo_disk_def)
  have g0: "py_get demo_images 0 = Some (CaptionedImage [''d'', ''a.jpg''])"
    and g2: "py_get demo_images 2 = Some (CaptionedImage [''d'', ''c.jpg''])"
    by (simp_all add: demo_images_def py_get_def py_index_def)
  have r: "read_caption demo_disk (CaptionedImage [''d'', ''a.jpg'']) = ''red fox''"
      "read_caption demo_disk (CaptionedImage [''d'', ''c.jpg'']) = ''red fox jumps''"
    by (simp_all add: read_caption_def cp demo_disk_def)
  have op: "image_open (demo_view j q buf) (path (images (demo_view i q' buf') ! nat (j mod 3))) = None"
    if "0 \<le> j" "j < 3" for i j q q' buf buf'
  proof -
    from that have "j = 0 \<or> j = 1 \<or> j = 2" by auto
    then show ?thesis
      by (auto simp: image_open_def demo_view_def demo_images_def CaptionedImage_def
          demo_disk_def)
  qed
  show "go_to_image (demo_view 0 q ''red fox'') 2 = Returned (demo_view 2 q ''red fox jumps'')"
  proof -
    let ?v = "demo_view 0 q ''red fox''"
    have ne: "images ?v \<noteq> []" by (simp add: demo_view_def demo_images_def)
    have g: "py_get (images ?v) (index ?v) = Some (CaptionedImage [''d'', ''a.jpg''])"
      by (simp add: demo_view_def g0)
    have st: "state_of (go_to_image ?v 2) = demo_view 2 q ''red fox jumps''"
      unfolding go_to_image_state [OF ne g]
      by (simp add: demo_view_def cp nz a) (simp add: demo_images_def r)
    from go_to_image_outcome [OF ne g, of 2]
    have "go_to_image ?v 2 =
        (case image_open (demo_view 2 q ''red fox jumps'') (path (images ?v ! nat (2 mod 3))) of
           None \<Rightarrow> Returned (demo_view 2 q ''red fox jumps'')
         | Some e \<Rightarrow> Raised e (demo_view 2 q ''red fox jumps''))"
      by (simp only: st) (simp add: demo_view_def demo_images_def)
    then show ?thesis by (simp only: op option.case)
  qed
  show "go_to_image (demo_view 2 q ''red fox jumps'') 0 = Returned (demo_view 0 q ''red fox'')"
  proof -
    let ?v = "demo_view 2 q ''red fox jumps''"
    have ne: "images ?v \<noteq> []" by (simp add: demo_view_def demo_images_def)
    have g: "py_get (images ?v) (index ?v) = Some (CaptionedImage [''d'', ''c.jpg''])"
      by (simp add: demo_view_def g2)
    have st: "state_of (go_to_image ?v 0) = demo_view 0 q ''red fox''"
      unfolding go_to_image_state [OF ne g]
      by (simp add: demo_view_def cp nz c) (simp add: demo_images_def r)
    from go_to_image_outcome [OF ne g, of 0]
    have "go_to_image ?v 0 =
        (case image_open (demo_view 0 q ''red fox'') (path (images ?v ! nat (0 mod 3))) of
           None \<Rightarrow> Returned (demo_view 0 q ''red fox'')
         | Some e \<Rightarrow> Raised e (demo_view 0 q ''red fox''))"
      by (simp only: st) (simp add: demo_view_def demo_images_def)
    then show ?thesis by (simp only: op option.case)
  qed
qed

theorem find_next_first_match_with_wrap_witness:
  "find_next (demo_view 0 ''red'' ''red fox'') = Returned (demo_view 2 ''red'' ''red fox jumps'') \<and>
   find_next (demo_view 2 ''red'' ''red fox jumps'') = Returned (demo_view 0 ''red'' ''red fox'') \<and>
   index (demo_view 2 ''red'' ''red fox jumps'') = 2 \<and> index (demo_view 0 ''red'' ''red fox'') = 0 \<and>
   state_of (find_next (demo_view 2 ''zzz'' ''red fox jumps'')) = demo_view 2 ''zzz'' ''red fox jumps'' \<and>
   state_of (find_next (demo_view 0 ''zzz'' ''red fox'')) = demo_view 0 ''zzz'' ''red fox''"
proof -
  have u: "[1..2] = [1, 2::int]" "[0..0] = [0::int]" "[3..2] = ([]::int list)"
      "[0..2] = [0, 1, 2::int]"
    by (simp_all add: upto.simps)
  have 1: "find_next (demo_view 0 ''red'' ''red fox'') = go_to_image (demo_view 0 ''red'' ''red fox'') 2"
    using find_next_first_match_with_wrap [of "demo_view 0 ''red'' ''red fox''"]
    by (simp add: demo_view_valid u demo_matches)
  have 2: "find_next (demo_view 2 ''red'' ''red fox jumps'')
      = go_to_image (demo_view 2 ''red'' ''red fox jumps'') 0"
    using find_next_first_match_with_wrap [of "demo_view 2 ''red'' ''red fox jumps''"]
    by (simp add: demo_view_valid u demo_matches)
  have 3: "state_of (find_next (demo_view 2 ''zzz'' ''red fox jumps'')) = demo_view 2 ''zzz'' ''red fox jumps''"
    using find_next_first_match_with_wrap [of "demo_view 2 ''zzz'' ''red fox jumps''"]
    by (simp add: demo_view_valid u demo_matches)
  have 4: "state_of (find_next (demo_view 0 ''zzz'' ''red fox'')) = demo_view 0 ''zzz'' ''red fox''"
    using find_next_first_match_with_wrap [of "demo_view 0 ''zzz'' ''red fox''"]
    by (simp add: demo_view_valid u demo_matches)
  show ?thesis
    using 1 2 3 4 by (simp add: demo_go_to_image demo_view_valid)
qed

lemma no_match_find:
  assumes "\<forall>c \<in> set (load_all_captions v). \<not> str_contains (search_text v) c"
    and "\<forall>i \<in> set indices. 0 \<le> i \<and> i < int (length (images v))"
  shows "List.find (matches v) indices = None"
proof -
  have "\<not> matches v i" if "i \<in> set indices" for i
  proof -
    from that assms(2) have "nat i < length (load_all_captions v)"
      by (auto simp: load_all_captions_def)
    then have "load_all_captions v ! nat i \<in> set (load_all_captions v)"
      by (rule nth_mem)
    with assms(1) show ?thesis by (simp add: matches_def)
  qed
  then show ?thesis by (simp add: find_None_iff)
qed

text \<open>
  A search text that no caption contains: \<^verbatim>\<open>find_next\<close> and \<^verbatim>\<open>find_prev\<close> leave the view,
  cursor and files included, as it was, whether they return or raise. \<^verbatim>\<open>find_next\<close>
  returns from every cursor but the last; there the second pass it starts itself has
  the range from 0 to 0, and \<^verbatim>\<open>find_next_internal\<close> raises \<^verbatim>\<open>ValueError\<close> on it.
\<close>

lemma find_without_match_keeps_view:
  assumes "images v \<noteq> []" and "0 \<le> index v" and "index v < int (length (images v))"
    and "search_text v \<noteq> []"
    and "\<forall>c \<in> set (load_all_captions v). \<not> str_contains (search_text v) c"
  shows "find_next v =
           (if index v = int (length (images v)) - 1 then Raised ValueError v else Returned v) \<and>
         (find_prev v = Returned v \<or> find_prev v = Raised ValueError v) \<and>
         state_of (find_next v) = v \<and> state_of (find_prev v) = v"
proof -
  let ?n = "int (length (images v))"
  let ?e = "(index v + ?n - 1) mod ?n"
  have n: "0 < ?n" using assms(1) by simp
  then have e: "0 \<le> ?e" "?e < ?n" by simp_all
  have "List.find (matches v) ([index v + 1..?n - 1] @ [0..index v]) = None"
    using assms by (intro no_match_find) auto
  then have nx: "find_next v = (if index v = ?n - 1 then Raised ValueError v else Returned v)"
    by (simp add: find_next_eq [OF assms(1-4)])
  have "List.find (matches v) (rev [0..?e - 1] @ rev [?e..?n - 1]) = None"
    using assms(5) e by (intro no_match_find) auto
  then have pv: "find_prev v = (if ?e = 0 then Raised ValueError v else Returned v)"
    by (simp add: find_prev_eq [OF assms(1-4)] Let_def)
  show ?thesis
    using nx pv by simp
qed

text \<open>
  C6. On the three captions, none of which contains "zzz": from cursors 0 and 1
  \<^verbatim>\<open>find_next\<close> returns with the view as it was, and from cursor 2, the last, it raises
  \<^verbatim>\<open>ValueError\<close>: after the pass over 0, 1, 2 it calls \<^verbatim>\<open>find_next_internal\<close> for the
  wrap with start 0 and end 0, the very range that function refuses. \<^verbatim>\<open>find_prev\<close> from
  cursor 1 raises in the same way on its first range.
\<close>

theorem find_next_raises_at_last_cursor:
  "find_next (demo_view 2 ''zzz'' ''red fox jumps'')
     = Raised ValueError (demo_view 2 ''zzz'' ''red fox jumps'') \<and>
   find_next (demo_view 0 ''zzz'' ''red fox'') = Returned (demo_view 0 ''zzz'' ''red fox'') \<and>
   find_next (demo_view 1 ''zzz'' ''blue sky'') = Returned (demo_view 1 ''zzz'' ''blue sky'') \<and>
   find_prev (demo_view 1 ''zzz'' ''blue sky'')
     = Raised ValueError (demo_view 1 ''zzz'' ''blue sky'')"
proof -
  have nm: "\<forall>c \<in> set (load_all_captions (demo_view i ''zzz'' buf)).
      \<not> str_contains (search_text (demo_view i ''zzz'' buf)) c" for i buf
    by (simp add: demo_captions demo_view_valid)
  have 0: "find_next (demo_view 0 ''zzz'' ''red fox'') = Returned (demo_view 0 ''zzz'' ''red fox'')"
    using find_without_match_keeps_view [OF _ _ _ _ nm, of 0 "''red fox''"]
    by (simp add: demo_view_valid)
  have 1: "find_next (demo_view 1 ''zzz'' ''blue sky'') = Returned (demo_view 1 ''zzz'' ''blue sky'')"
    using find_without_match_keeps_view [OF _ _ _ _ nm, of 1 "''blue sky''"]
    by (simp add: demo_view_valid)
  have 2: "find_next (demo_view 2 ''zzz'' ''red fox jumps'')
      = Raised ValueError (demo_view 2 ''zzz'' ''red fox jumps'')"
    using find_without_match_keeps_view [OF _ _ _ _ nm, of 2 "''red fox jumps''"]
    by (simp add: demo_view_valid)
  have 3: "find_prev (demo_view 1 ''zzz'' ''blue sky'')
      = Raised ValueError (demo_view 1 ''zzz'' ''blue sky'')"
    by (simp add: find_prev_eq demo_view_valid)
  from 2 0 1 3 show ?thesis by simp
qed

text \<open>
  C7. \<^verbatim>\<open>find_prev\<close> passes \<open>(cursor - 1) mod length\<close> as the end of the range, and the end
  of a \<^verbatim>\<open>range\<close> is excluded: the first pass starts at cursor-2, not at cursor-1. On the
  three captions: from cursor 1 the range is empty and the search for "red" raises
  although the caption before the cursor contains it; from cursor 0 it stays on 0
  although the wrap should land on 2; from cursor 2 the search for "e" lands on 0
  although the caption at 1 contains it.
\<close>

theorem find_prev_off_by_one:
  "find_prev (demo_view 1 ''red'' ''blue sky'') = Raised ValueError (demo_view 1 ''red'' ''blue sky'') \<and>
   find_prev (demo_view 0 ''red'' ''red fox'') = go_to_image (demo_view 0 ''red'' ''red fox'') 0 \<and>
   index (state_of (find_prev (demo_view 0 ''red'' ''red fox''))) = 0 \<and>
   matches (demo_view 0 ''red'' ''red fox'') 2 \<and>
   find_prev (demo_view 2 ''e'' ''red fox jumps'') = go_to_image (demo_view 2 ''e'' ''red fox jumps'') 0 \<and>
   index (state_of (find_prev (demo_view 2 ''e'' ''red fox jumps''))) = 0 \<and>
   matches (demo_view 2 ''e'' ''red fox jumps'') 1"
proof -
  have u: "[0..0] = [0::int]" "[0..1] = [0, 1::int]" "[1..2] = [1, 2::int]" "[2..2] = [2::int]"
    by (simp_all add: upto.simps)
  have m: "matches (demo_view 2 ''e'' ''red fox jumps'') 0" "matches (demo_view 2 ''e'' ''red fox jumps'') 1"
    by (simp_all add: matches_def demo_captions demo_view_valid)
  have 1: "find_prev (demo_view 1 ''red'' ''blue sky'') = Raised ValueError (demo_view 1 ''red'' ''blue sky'')"
    by (simp add: find_prev_eq demo_view_valid)
  have 2: "find_prev (demo_view 0 ''red'' ''red fox'') = go_to_image (demo_view 0 ''red'' ''red fox'') 0"
    by (simp add: find_prev_eq demo_view_valid u demo_matches)
  have 3: "find_prev (demo_view 2 ''e'' ''red fox jumps'') = go_to_image (demo_view 2 ''e'' ''red fox jumps'') 0"
    by (simp add: find_prev_eq demo_view_valid u m)
  have 4: "index (state_of (go_to_image (demo_view i q buf) 0)) = 0" if "0 \<le> i" "i < 3" for i q buf
    using that by (intro go_to_image_index) (simp_all add: demo_view_valid)
  show ?thesis
    using 1 2 3 4 m by (simp add: demo_matches)
qed

subsection \<open>Deleting the current image\<close>

lemma py_del_valid:
  "0 \<le> i \<Longrightarrow> i < int (length xs) \<Longrightarrow> py_del xs i = Some (take (nat i) xs @ drop (Suc (nat i)) xs)"
  by (simp add: py_del_def py_index_def)

lemma length_del:
  "k < length xs \<Longrightarrow> length (take k xs @ drop (Suc k) xs) = length xs - 1"
  by simp

text \<open>
  With the cursor inside the list, the base path set and the image file present,
  \<^verbatim>\<open>delete_image\<close> gets past both renames and the \<^verbatim>\<open>del\<close>; what is left is \<^verbatim>\<open>set_index\<close> and
  \<^verbatim>\<open>update_ui\<close> on the shortened list.
\<close>

lemma delete_image_moves:
  assumes "images v \<noteq> []" and "0 \<le> index v" and "index v < int (length (images v))"
    and "view_base_path v = Some bp"
    and "disk v (path (images v ! nat (index v))) = Some ci"
  defines "img \<equiv> images v ! nat (index v)"
  defines "fs1 \<equiv> ((disk v)(path img := None))(bp @ [''_deleted'', name (path img)] \<mapsto> ci)"
  defines "fs2 \<equiv> (case fs1 (caption_path img) of
                     None \<Rightarrow> fs1
                   | Some c \<Rightarrow> (fs1(caption_path img := None))
                                (bp @ [''_deleted'', name (caption_path img)] \<mapsto> c))"
  defines "v1 \<equiv> v\<lparr>disk := fs2,
                   images := take (nat (index v)) (images v) @ drop (Suc (nat (index v))) (images v)\<rparr>"
  shows "delete_image v = then_do (set_index v1 (index v)) update_ui"
proof -
  have g: "py_get (images v) (index v) = Some img"
    using assms(2,3) by (simp add: py_get_valid img_def)
  have d: "py_del (images v) (index v)
      = Some (take (nat (index v)) (images v) @ drop (Suc (nat (index v))) (images v))"
    using assms(2,3) by (simp add: py_del_valid)
  have r1: "rename (disk v) (path img) (bp @ [''_deleted'', name (path img)]) = Some fs1"
    using assms(5) by (simp add: rename_def fs1_def img_def)
  show ?thesis
  proof (cases "path_exists fs1 (caption_path img)")
    case True
    then have "rename fs1 (caption_path img) (bp @ [''_deleted'', name (caption_path img)])
        = Some fs2"
      by (auto simp: path_exists_def rename_def fs2_def)
    with True show ?thesis
      unfolding delete_image_def using assms(1,4)
      by (simp add: g d r1 Let_def v1_def)
  next
    case False
    then have "fs2 = fs1"
      by (simp add: path_exists_def fs2_def)
    with False show ?thesis
      unfolding delete_image_def using assms(1,4)
      by (simp add: g d r1 Let_def v1_def)
  qed
qed

text \<open>
  On a list of one image the shortened list is empty and \<^verbatim>\<open>set_index\<close> divides by zero:
  the files have been moved and the list is empty, but the method raises.
\<close>

lemma delete_image_single_raises:
  assumes "images v = [e]" and "index v = 0" and "view_base_path v = Some bp"
    and "disk v (path e) = Some ci"
  shows "\<exists>v'. delete_image v = Raised ZeroDivisionError v' \<and> images v' = [] \<and> index v' = 0"
proof -
  have "disk v (path (images v ! nat (index v))) = Some ci" using assms by simp
  from delete_image_moves [OF _ _ _ assms(3) this] assms(1,2)
  show ?thesis by (simp add: set_index_def)
qed

text \<open>
  On a list of two or more the shortened list is not empty: \<^verbatim>\<open>set_index\<close> puts the cursor
  inside it and \<^verbatim>\<open>update_ui\<close> fills the caption field; whether the method returns is up
  to the image that is now current.
\<close>

lemma delete_image_state:
  assumes "2 \<le> length (images v)" and "0 \<le> index v" and "index v < int (length (images v))"
    and "view_base_path v = Some bp"
    and "disk v (path (images v ! nat (index v))) = Some ci"
  defines "u \<equiv> state_of (delete_image v)"
  shows "images u = take (nat (index v)) (images v) @ drop (Suc (nat (index v))) (images v)"
    and "index u = index v mod (int (length (images v)) - 1)"
    and "caption_field u = read_caption (disk u) (images u ! nat (index u))"
    and "delete_image v =
           (case image_open u (path (images u ! nat (index u))) of
              None \<Rightarrow> Returned u | Some e \<Rightarrow> Raised e u)"
proof -
  define imgs where "imgs = take (nat (index v)) (images v) @ drop (Suc (nat (index v))) (images v)"
  define fs1 where "fs1 = ((disk v)(path (images v ! nat (index v)) := None))
      (bp @ [''_deleted'', name (path (images v ! nat (index v)))] \<mapsto> ci)"
  define fs2 where "fs2 = (case fs1 (caption_path (images v ! nat (index v))) of
        None \<Rightarrow> fs1
      | Some c \<Rightarrow> (fs1(caption_path (images v ! nat (index v)) := None))
                   (bp @ [''_deleted'', name (caption_path (images v ! nat (index v)))] \<mapsto> c))"
  define w where "w = v\<lparr>disk := fs2, images := imgs, index := index v mod int (length imgs)\<rparr>"
  have k: "nat (index v) < length (images v)" using assms(2,3) by simp
  have len: "length imgs = length (images v) - 1"
    unfolding imgs_def using k by (rule length_del)
  then have ne: "imgs \<noteq> []" using assms(1) by auto
  have il: "int (length imgs) = int (length (images v)) - 1"
    using len assms(1) by simp
  have ne0: "images v \<noteq> []" using assms(1) by auto
  have d: "delete_image v = update_ui w"
    unfolding delete_image_moves [OF ne0 assms(2-5)] w_def fs2_def fs1_def imgs_def [symmetric]
    using ne by (simp add: set_index_def)
  have wn: "images w \<noteq> []" using ne by (simp add: w_def)
  have wg: "py_get (images w) (index w) = Some (imgs ! nat (index v mod int (length imgs)))"
    using py_get_mod [OF ne, of "index v"] by (simp add: w_def)
  have us: "u = w\<lparr>caption_field := read_caption (disk w) (imgs ! nat (index v mod int (length imgs)))\<rparr>"
    unfolding u_def d by (rule update_ui_state [OF wn wg])
  show "images u = take (nat (index v)) (images v) @ drop (Suc (nat (index v))) (images v)"
    by (simp add: us w_def imgs_def)
  show "index u = index v mod (int (length (images v)) - 1)"
    by (simp add: us w_def il)
  have cur: "images u ! nat (index u) = imgs ! nat (index v mod int (length imgs))"
    by (simp add: us w_def)
  show "caption_field u = read_caption (disk u) (images u ! nat (index u))"
    unfolding cur by (simp add: us)
  show "delete_image v =
      (case image_open u (path (images u ! nat (index u))) of
         None \<Rightarrow> Returned u | Some e \<Rightarrow> Raised e u)"
    unfolding cur using update_ui_outcome [OF wn wg] by (simp only: d [symmetric] u_def)
qed

text \<open>
  C3, as amended. On a list of at least two images, with the cursor inside it and the base
  path set, when the image file is there to be renamed (the rename of the sidecar file is
  only tried when that file exists), \<^verbatim>\<open>delete_image\<close> ends in a view whose list is the
  old one without the entry at the cursor, so one shorter, and whose cursor is inside
  the new list: it keeps its value, except that after deleting the last entry it is 0,
  the cursor modulo the new length. The method returns when the image that is now
  current can be opened, and raises what opening it raises, in that same view, when it
  cannot.
\<close>

theorem delete_image_shrinks_by_one:
  assumes "2 \<le> length (images v)" and "0 \<le> index v" and "index v < int (length (images v))"
    and "view_base_path v = Some bp"
    and "path_exists (disk v) (path (images v ! nat (index v)))"
  shows "length (images (state_of (delete_image v))) = length (images v) - 1 \<and>
         images (state_of (delete_image v))
           = take (nat (index v)) (images v) @ drop (Suc (nat (index v))) (images v) \<and>
         index (state_of (delete_image v))
           = (if index v = int (length (images v)) - 1 then 0 else index v) \<and>
         0 \<le> index (state_of (delete_image v)) \<and>
         index (state_of (delete_image v)) < int (length (images (state_of (delete_image v)))) \<and>
         delete_image v =
           (case image_open (state_of (delete_image v))
                   (path (images (state_of (delete_image v))
                            ! nat (index (state_of (delete_image v))))) of
              None \<Rightarrow> Returned (state_of (delete_image v))
            | Some e \<Rightarrow> Raised e (state_of (delete_image v)))"
proof -
  from assms(5) obtain ci where ci: "disk v (path (images v ! nat (index v))) = Some ci"
    by (auto simp: path_exists_def)
  note st = delete_image_state [OF assms(1-4) ci]
  have k: "nat (index v) < length (images v)" using assms(2,3) by simp
  have len: "length (images (state_of (delete_image v))) = length (images v) - 1"
    unfolding st(1) using k by (rule length_del)
  have m: "index v mod (int (length (images v)) - 1)
      = (if index v = int (length (images v)) - 1 then 0 else index v)"
    using assms(1-3) by simp
  have x: "index (state_of (delete_image v))
      = (if index v = int (length (images v)) - 1 then 0 else index v)"
    using st(2) m by simp
  have r: "0 \<le> index (state_of (delete_image v))"
      "index (state_of (delete_image v)) < int (length (images (state_of (delete_image v))))"
    using x len assms(1-3) by auto
  from len st(1) x r st(4) show ?thesis by blast
qed

lemma disk_after_set_index_update_ui:
  "disk (state_of (then_do (set_index v i) update_ui)) = disk v"
  by (simp add: set_index_def update_ui_def Let_def split: option.splits)

lemma decode_after_set_index_update_ui:
  "decode (state_of (then_do (set_index v i) update_ui)) = decode v"
  by (simp add: set_index_def update_ui_def Let_def split: option.splits)

lemma delete_image_decode: "decode (state_of (delete_image v)) = decode v"
  by (simp add: delete_image_def Let_def decode_after_set_index_update_ui split: option.splits)

lemma delete_image_disk:
  assumes "images v \<noteq> []" and "0 \<le> index v" and "index v < int (length (images v))"
    and "view_base_path v = Some bp"
    and "disk v (path (images v ! nat (index v))) = Some ci"
  defines "img \<equiv> images v ! nat (index v)"
  defines "fs1 \<equiv> ((disk v)(path img := None))(bp @ [''_deleted'', name (path img)] \<mapsto> ci)"
  shows "disk (state_of (delete_image v)) =
     (case fs1 (caption_path img) of
        None \<Rightarrow> fs1
      | Some c \<Rightarrow> (fs1(caption_path img := None))
                   (bp @ [''_deleted'', name (caption_path img)] \<mapsto> c))"
  unfolding delete_image_moves [OF assms(1-5)] fs1_def img_def
  by (simp add: disk_after_set_index_update_ui)


lemma demo_view_files:
  "view_base_path (demo_view i q buf) = Some [''d'']" "disk (demo_view i q buf) = demo_disk"
  "images (demo_view i q buf) = demo_images"
  by (simp_all add: demo_view_def)

lemma demo_current:
  "images (demo_view 0 q buf) ! nat (index (demo_view 0 q buf)) = CaptionedImage [''d'', ''a.jpg'']"
  "images (demo_view 1 q buf) ! nat (index (demo_view 1 q buf)) = CaptionedImage [''d'', ''b.jpg'']"
  "images (demo_view 2 q buf) ! nat (index (demo_view 2 q buf)) = CaptionedImage [''d'', ''c.jpg'']"
  by (simp_all add: demo_view_def demo_images_def)

lemma demo_image_files:
  "demo_disk (path (CaptionedImage [''d'', ''a.jpg''])) = Some []"
  "demo_disk (path (CaptionedImage [''d'', ''b.jpg''])) = Some []"
  "demo_disk (path (CaptionedImage [''d'', ''c.jpg''])) = Some []"
  by (simp_all add: CaptionedImage_def demo_disk_def)

lemma demo_view_bounds:
  "2 \<le> length (images (demo_view i q buf))"
  "0 \<le> i \<Longrightarrow> 0 \<le> index (demo_view i q buf)"
  "i < 3 \<Longrightarrow> index (demo_view i q buf) < int (length (images (demo_view i q buf)))"
  by (simp_all add: demo_view_def demo_images_def)

text \<open>
  The claim as stated fails where the last of three entries is deleted: the cursor goes
  to 0, the first entry, and not to 1, the new last entry.
\<close>

theorem delete_last_wraps_to_first_counterexample:
  "index (state_of (delete_image (demo_view 2 [] ''red fox jumps''))) = 0 \<and>
   length (images (state_of (delete_image (demo_view 2 [] ''red fox jumps'')))) = 2"
proof -
  let ?v = "demo_view 2 [] ''red fox jumps''"
  have f: "disk ?v (path (images ?v ! nat (index ?v))) = Some []"
    by (simp only: demo_current demo_view_files(2) demo_image_files)
  have b: "0 \<le> index ?v" "index ?v < int (length (images ?v))"
    by (simp_all add: demo_view_valid)
  note st = delete_image_state [OF demo_view_bounds(1) b demo_view_files(1) f]
  from st(1,2) show ?thesis
    by (simp add: demo_view_valid)
qed

text \<open>
  Whether the method returns is up to the next image: with \<^verbatim>\<open>b.jpg\<close> gone from the
  folder, deleting \<^verbatim>\<open>a.jpg\<close> relocates it, shortens the list and then raises.
\<close>

lemma delete_image_next_image_missing:
  "\<exists>u. delete_image ((demo_view 0 [] ''red fox'')\<lparr>disk := demo_disk([''d'', ''b.jpg''] := None)\<rparr>)
          = Raised FileNotFoundError u \<and>
        images u = [CaptionedImage [''d'', ''b.jpg''], CaptionedImage [''d'', ''c.jpg'']] \<and>
        index u = 0"
proof -
  let ?v = "(demo_view 0 [] ''red fox'')\<lparr>disk := demo_disk([''d'', ''b.jpg''] := None)\<rparr>"
  let ?u = "state_of (delete_image ?v)"
  have p: "2 \<le> length (images ?v)" "0 \<le> index ?v" "index ?v < int (length (images ?v))"
      "view_base_path ?v = Some [''d'']"
    by (simp_all add: demo_view_def demo_images_def)
  have f: "disk ?v (path (images ?v ! nat (index ?v))) = Some []"
    by (simp add: demo_view_def demo_images_def CaptionedImage_def demo_disk_def)
  note st = delete_image_state [OF p f]
  have i: "images ?u = [CaptionedImage [''d'', ''b.jpg''], CaptionedImage [''d'', ''c.jpg'']]"
    using st(1) by (simp add: demo_view_def demo_images_def)
  have x: "index ?u = 0"
    using st(2) by (simp add: demo_view_def demo_images_def)
  have "disk ?u [''d'', ''b.jpg''] = None"
    using delete_image_disk [OF _ p(2-4) f]
    by (simp add: demo_view_def demo_images_def CaptionedImage_def demo_disk_def
        caption_path_def stem_def name_def parent_def)
  then have "image_open ?u (path (images ?u ! nat (index ?u))) = Some FileNotFoundError"
    by (simp add: i x image_open_def CaptionedImage_def)
  with st(4) have "delete_image ?v = Raised FileNotFoundError ?u" by simp
  with i x show ?thesis by blast
qed

theorem delete_image_shrinks_by_one_witness:
  "\<exists>v'. delete_image (demo_view 1 [] ''blue sky'') = Returned v' \<and>
     length (images v') = 2 \<and> index v' = 1 \<and>
     images v' = [CaptionedImage [''d'', ''a.jpg''], CaptionedImage [''d'', ''c.jpg'']]"
proof -
  let ?v = "demo_view 1 [] ''blue sky''"
  let ?u = "state_of (delete_image ?v)"
  have f: "path_exists (disk ?v) (path (images ?v ! nat (index ?v)))"
    unfolding path_exists_def
    by (simp only: demo_current demo_view_files(2) demo_image_files) simp
  have ci: "disk ?v (path (images ?v ! nat (index ?v))) = Some []"
    by (simp only: demo_current demo_view_files(2) demo_image_files)
  have b: "0 \<le> index ?v" "index ?v < int (length (images ?v))"
    by (simp_all add: demo_view_valid)
  note main = delete_image_shrinks_by_one [OF demo_view_bounds(1) b demo_view_files(1) f]
  from main have l: "length (images ?u) = 2"
    by (simp add: demo_view_valid)
  from main have i: "images ?u = [CaptionedImage [''d'', ''a.jpg''], CaptionedImage [''d'', ''c.jpg'']]"
    by (simp add: demo_view_def demo_images_def)
  from main have x: "index ?u = 1"
    by (simp add: demo_view_valid)
  have "disk ?u [''d'', ''c.jpg''] = Some []"
    using delete_image_disk [OF demo_view_valid(1) b demo_view_files(1) ci]
    by (simp add: demo_view_def demo_images_def CaptionedImage_def demo_disk_def
        caption_path_def stem_def name_def parent_def)
  moreover have "decode ?u = (\<lambda>c. None)"
    by (simp add: delete_image_decode demo_view_def)
  ultimately have "image_open ?u (path (images ?u ! nat (index ?u))) = None"
    by (simp add: i x image_open_def CaptionedImage_def)
  with main have "delete_image ?v = Returned ?u" by simp
  with l i x show ?thesis by blast
qed









subsection \<open>Opening a folder\<close>

lemma rfind_found:
  "0 \<le> rfind c s \<Longrightarrow> nat (rfind c s) < length s \<and> s ! nat (rfind c s) = c"
proof (induction s)
  case Nil
  then show ?case by simp
next
  case (Cons x s)
  show ?case
  proof (cases "0 \<le> rfind c s")
    case True
    with Cons.IH have "nat (rfind c s) < length s" "s ! nat (rfind c s) = c" by simp_all
    moreover have "rfind c (x # s) = rfind c s + 1" using True by (simp add: Let_def)
    moreover have "nat (rfind c s + 1) = Suc (nat (rfind c s))" using True by simp
    ultimately show ?thesis by simp
  next
    case False
    with Cons.prems have "x = c" "rfind c (x # s) = 0"
      by (auto simp: Let_def split: if_splits)
    then show ?thesis by simp
  qed
qed

lemma rfind_lower: "- 1 \<le> rfind c s"
  by (induction s) (auto simp: Let_def)

text \<open>
  The extension \<^verbatim>\<open>os.path.splitext\<close> returns is empty or begins with the dot, and no member
  of \<^verbatim>\<open>IMG_EXT\<close> does: the test of \<^verbatim>\<open>open_folder\<close> accepts no file name.
\<close>

lemma splitext_ext_dot: "splitext_ext f = [] \<or> hd (splitext_ext f) = CHR ''.''"
proof (cases "rfind (CHR ''.'') f > rfind (CHR ''/'') f")
  case True
  with rfind_lower [of "CHR ''/''" f] have "0 \<le> rfind (CHR ''.'') f" by simp
  from rfind_found [OF this]
  have "drop (nat (rfind (CHR ''.'') f)) f = CHR ''.'' # drop (Suc (nat (rfind (CHR ''.'') f))) f"
    by (metis Cons_nth_drop_Suc)
  then show ?thesis by (simp add: splitext_ext_def Let_def)
next
  case False
  then show ?thesis by (simp add: splitext_ext_def Let_def)
qed

lemma splitext_ext_not_accepted: "splitext_ext f \<notin> set IMG_EXT"
  using splitext_ext_dot [of f] by (auto simp: IMG_EXT_def)

lemma image_filenames_empty: "image_filenames filenames = []"
  by (simp add: image_filenames_def splitext_ext_not_accepted)

lemma scan_empty: "scan walk = []"
  by (induction walk) (auto simp: scan_def image_filenames_empty)

lemma open_folder_eq:
  "open_folder v (Some d) walk = Raised AttributeError (v\<lparr>view_base_path := Some d, images := []\<rparr>)"
  by (simp add: open_folder_def scan_empty update_ui_def)

text \<open>
  C4. A folder with \<^verbatim>\<open>a.jpg\<close>, \<^verbatim>\<open>B.PNG\<close>, \<^verbatim>\<open>notes.txt\<close> and \<^verbatim>\<open>sub/c.jpeg\<close>: the extensions
  are \<^verbatim>\<open>.jpg\<close> and \<^verbatim>\<open>.PNG\<close>, with the dot and in the case of the file name, the list of
  images stays empty, and \<^verbatim>\<open>update_ui\<close> raises on the empty list.
\<close>

theorem open_folder_loads_nothing:
  "splitext_ext ''a.jpg'' = ''.jpg'' \<and> splitext_ext ''B.PNG'' = ''.PNG'' \<and>
   open_folder (demo_view 0 [] ''red fox'') (Some [''e''])
       [([''e''], [''a.jpg'', ''B.PNG'', ''notes.txt'']), ([''e'', ''sub''], [''c.jpeg''])]
     = Raised AttributeError
         ((demo_view 0 [] ''red fox'')\<lparr>view_base_path := Some [''e''], images := []\<rparr>)"
proof -
  have "splitext_ext ''a.jpg'' = ''.jpg''" "splitext_ext ''B.PNG'' = ''.PNG''"
    by (simp_all add: splitext_ext_def)
  then show ?thesis by (simp add: open_folder_eq)
qed

text \<open>
  C2. \<^verbatim>\<open>open_folder\<close> replaces the list and the base path and does not touch the cursor:
  opened from cursor 2, the view still has cursor 2.
\<close>

theorem open_folder_keeps_cursor:
  "open_folder (demo_view 2 [] ''red fox jumps'') (Some [''e'']) [([''e''], [''x.jpg''])]
     = Raised AttributeError
         ((demo_view 2 [] ''red fox jumps'')\<lparr>view_base_path := Some [''e''], images := []\<rparr>) \<and>
   index (state_of (open_folder (demo_view 2 [] ''red fox jumps'') (Some [''e''])
       [([''e''], [''x.jpg''])])) = 2"
  by (simp add: open_folder_eq demo_view_valid)

text \<open>
  The other methods keep the cursor inside a non-empty list, in whatever state they
  return or raise.
\<close>

lemma cursor_ok_set_index: "cursor_ok v \<Longrightarrow> cursor_ok (state_of (set_index v i))"
  by (simp add: set_index_def cursor_ok_def)

lemma cursor_ok_update_ui: "cursor_ok v \<Longrightarrow> cursor_ok (state_of (update_ui v))"
  by (simp add: update_ui_def cursor_ok_def Let_def split: option.splits)

lemma cursor_ok_go_to_image: "cursor_ok v \<Longrightarrow> cursor_ok (state_of (go_to_image v i))"
proof (cases "images v = []")
  case True
  then show ?thesis by (simp add: go_to_image_def cursor_ok_def)
next
  case False
  assume ok: "cursor_ok v"
  show ?thesis
  proof (cases "py_get (images v) (index v)")
    case None
    with False ok show ?thesis by (simp add: go_to_image_None)
  next
    case (Some img)
    with False show ?thesis by (simp add: go_to_image_state cursor_ok_def)
  qed
qed

lemma cursor_ok_shuffle_images: "cursor_ok v \<Longrightarrow> cursor_ok (state_of (shuffle_images v))"
  by (cases "py_get (images v) (index v)")
     (simp_all add: shuffle_images_def store_caption_None store_caption_Some cursor_ok_def)

lemma cursor_ok_tail:
  "cursor_ok (state_of (then_do (set_index v i) update_ui))"
  by (simp add: set_index_def update_ui_def cursor_ok_def py_get_mod Let_def
      split: option.splits)

lemma cursor_ok_delete_image: "cursor_ok v \<Longrightarrow> cursor_ok (state_of (delete_image v))"
  by (simp add: delete_image_def Let_def cursor_ok_tail split: option.splits)
     (simp add: cursor_ok_def)

lemma cursor_ok_open_folder: "cursor_ok (state_of (open_folder v (Some d) walk))"
  by (simp add: open_folder_eq cursor_ok_def)

text \<open>
  The order of the list is that of the lower-cased paths: \<^verbatim>\<open>B.png\<close>, \<^verbatim>\<open>a.png\<close>, \<^verbatim>\<open>C.png\<close>
  sort to \<^verbatim>\<open>a.png\<close>, \<^verbatim>\<open>B.png\<close>, \<^verbatim>\<open>C.png\<close>.
\<close>

lemma sort_is_case_insensitive:
  "map path (sort_key sort_key_of (map CaptionedImage [[''B.png''], [''a.png''], [''C.png'']]))
     = [[''a.png''], [''B.png''], [''C.png'']]"
  by code_simp

subsection \<open>The spell check is debounced\<close>

lemma on_modify_reschedules:
  "timers (on_modify s) =
     (case afterid s of Some i \<Rightarrow> filter (\<lambda>(j, due). j \<noteq> i) (timers s) | None \<Rightarrow> timers s)
       @ [(next_id s, clock s + 200)] \<and>
   afterid (on_modify s) = Some (next_id s) \<and>
   checks (on_modify s) = checks s \<and> clock (on_modify s) = clock s \<and>
   next_id (on_modify s) = Suc (next_id s)"
  by (simp add: on_modify_def after_def after_cancel_def Let_def split: option.splits)

text \<open>
  After a modification at time \<open>t\<close>, from the idle widget or from one whose pending call
  is not yet due, exactly one call is pending, due at \<open>t + 200\<close>, and no check has run.
\<close>

lemma modify_at_idle:
  assumes "timers s = []" and "afterid s = None"
  shows "timers (modify_at t s) = [(next_id s, t + 200)] \<and>
         afterid (modify_at t s) = Some (next_id s) \<and>
         checks (modify_at t s) = checks s \<and> clock (modify_at t s) = t"
  using assms on_modify_reschedules [of "run_until t s"]
  by (simp add: modify_at_def run_until_def)

lemma modify_at_pending:
  assumes "timers s = [(i, due)]" and "afterid s = Some i" and "t < due"
  shows "timers (modify_at t s) = [(next_id s, t + 200)] \<and>
         afterid (modify_at t s) = Some (next_id s) \<and>
         checks (modify_at t s) = checks s \<and> clock (modify_at t s) = t"
  using assms on_modify_reschedules [of "run_until t s"]
  by (simp add: modify_at_def run_until_def)

lemma modify_all_pending:
  assumes "timers s = [(i, t + 200)]" and "afterid s = Some i" and "within_window t ts"
  shows "\<exists>j. timers (modify_all ts s) = [(j, last (t # ts) + 200)] \<and>
             afterid (modify_all ts s) = Some j \<and>
             checks (modify_all ts s) = checks s"
  using assms
proof (induction ts arbitrary: s i t)
  case Nil
  then show ?case by (simp add: modify_all_def)
next
  case (Cons t' ts)
  from Cons.prems have w: "t' < t + 200" "within_window t' ts" by simp_all
  from modify_at_pending [OF Cons.prems(1,2) w(1)]
  have 1: "timers (modify_at t' s) = [(next_id s, t' + 200)]"
    and 2: "afterid (modify_at t' s) = Some (next_id s)"
    and 3: "checks (modify_at t' s) = checks s"
    by simp_all
  from Cons.IH [OF 1 2 w(2)] 3 show ?case
    by (simp add: modify_all_def)
qed

lemma run_until_fires:
  assumes "timers s = [(i, due)]" and "afterid s = Some i"
  shows "checks (run_until T s) = (if due \<le> T then checks s @ [due] else checks s)"
    and "due \<le> T \<Longrightarrow> timers (run_until T s) = [] \<and> afterid (run_until T s) = None"
  using assms by (simp_all add: run_until_def on_modified_def)

text \<open>
  C9. \<^verbatim>\<open>on_modify\<close> cancels the pending call whose id the widget stores, if any, and
  schedules \<^verbatim>\<open>on_modified\<close> 200 ms after the current time. So for modifications at the
  times \<open>t # ts\<close>, one or more, each less than 200 ms after the one before, on a widget
  with nothing pending: when the event loop has run up to a time \<open>T\<close>, \<^verbatim>\<open>on_modified\<close> has
  run exactly once, 200 ms after the last modification, if \<open>T\<close> has reached that time,
  and not at all before.
\<close>

theorem debounce_one_check:
  assumes "within_window t ts" and "clock s \<le> t" and "timers s = []" and "afterid s = None"
    and "checks s = []"
  shows "checks (run_until T (modify_all (t # ts) s))
           = (if last (t # ts) + 200 \<le> T then [last (t # ts) + 200] else []) \<and>
         (\<forall>u. timers (on_modify u) =
            (case afterid u of Some i \<Rightarrow> filter (\<lambda>(j, due). j \<noteq> i) (timers u) | None \<Rightarrow> timers u)
              @ [(next_id u, clock u + 200)] \<and> afterid (on_modify u) = Some (next_id u))"
proof -
  from modify_at_idle [OF assms(3,4), of t]
  have 1: "timers (modify_at t s) = [(next_id s, t + 200)]"
    and 2: "afterid (modify_at t s) = Some (next_id s)"
    and 3: "checks (modify_at t s) = checks s"
    by simp_all
  from modify_all_pending [OF 1 2 assms(1)] 3
  obtain j where j: "timers (modify_all ts (modify_at t s)) = [(j, last (t # ts) + 200)]"
    "afterid (modify_all ts (modify_at t s)) = Some j"
    "checks (modify_all ts (modify_at t s)) = checks s"
    by auto
  have m: "modify_all (t # ts) s = modify_all ts (modify_at t s)"
    by (simp add: modify_all_def)
  have "checks (run_until T (modify_all (t # ts) s))
           = (if last (t # ts) + 200 \<le> T then [last (t # ts) + 200] else [])"
    unfolding m run_until_fires(1) [OF j(1,2)] j(3) assms(5) by simp
  then show ?thesis
    using on_modify_reschedules by blast
qed

theorem debounce_one_check_witness:
  "within_window 1000 [1050, 1200, 1399] \<and>
   checks (run_until 2000 (modify_all [1000, 1050, 1200, 1399] (idle 0))) = [1599] \<and>
   checks (run_until 1598 (modify_all [1000, 1050, 1200, 1399] (idle 0))) = []"
proof -
  have w: "within_window 1000 [1050, 1200, 1399]" by simp
  have i: "clock (idle 0) \<le> 1000" "timers (idle 0) = []" "afterid (idle 0) = None"
      "checks (idle 0) = []"
    by (simp_all add: idle_def)
  from debounce_one_check [OF w i, of 2000] debounce_one_check [OF w i, of 1598] w
  show ?thesis by simp
qed

end
